theory Spec2Isabelle
  imports Complex_Main "HOL-Library.AList"
begin

section \<open>Python values used by the three tools\<close>

text \<open>
  A Python \<open>dict\<close> is modelled as an association list in insertion order: assignment to a
  key that is present keeps its position, assignment to a new key appends it
  (\<open>AList.update\<close>), \<open>del d[k]\<close> removes it (\<open>AList.delete\<close>), \<open>k in d\<close> is membership
  in the list of keys and \<open>d[k]\<close> is \<open>map_of d k\<close>. Numbers read from JSON are taken as
  real numbers, so the rounding of Python's floats is not part of the model. Strings are
  lists of 8-bit characters; \<open>str.isdigit\<close> and \<open>str.lower\<close> are modelled on ASCII.
\<close>

datatype py_error = ValueError | ZeroDivisionError

type_synonym ('k, 'v) dict = "('k \<times> 'v) list"

definition keys :: "('k, 'v) dict \<Rightarrow> 'k list" where
  "keys d = map fst d"

definition contains :: "('k, 'v) dict \<Rightarrow> 'k \<Rightarrow> bool" where
  "contains d k = (k \<in> set (keys d))"

text \<open>\<open>d.get(k, default)\<close>\<close>

definition get_default :: "('k, 'v) dict \<Rightarrow> 'k \<Rightarrow> 'v \<Rightarrow> 'v" where
  "get_default d k dflt = (case map_of d k of None \<Rightarrow> dflt | Some v \<Rightarrow> v)"

text \<open>\<open>d.update(other)\<close>: every item of \<open>other\<close>, in order, is assigned into \<open>d\<close>.\<close>

definition dict_update :: "('k, 'v) dict \<Rightarrow> ('k, 'v) dict \<Rightarrow> ('k, 'v) dict" where
  "dict_update d other = fold (\<lambda>(k, v) acc. AList.update k v acc) other d"

text \<open>\<open>max(xs)\<close> raises \<open>ValueError\<close> on an empty sequence.\<close>

fun py_max :: "real list \<Rightarrow> py_error + real" where
  "py_max [] = Inl ValueError"
| "py_max (x # xs) = Inr (fold max xs x)"

section \<open>Scorer (\<open>rank_games_by_popularity.py\<close>)\<close>

definition METRIC_WEIGHTS :: "(string, real) dict" where
  "METRIC_WEIGHTS =
     [(''1'', 1), (''2'', 2), (''3'', 5), (''4'', 4), (''5'', 3),
      (''6'', 3), (''7'', 1), (''8'', 2), (''9'', 4), (''10'', 5 / 2)]"

text \<open>
  \<open>calculate_popularity_score\<close>: the early return on an empty mapping, the accumulation
  loop over \<open>metrics.items()\<close>, the maximum of the table and the division, which raises
  \<open>ZeroDivisionError\<close> on a zero divisor.
\<close>

definition divisor :: "(string, real) dict \<Rightarrow> real \<Rightarrow> real" where
  "divisor metrics max_weight = real (length metrics) * max_weight"

definition calculate_popularity_score :: "(string, real) dict \<Rightarrow> py_error + real" where
  "calculate_popularity_score metrics =
     (if metrics = [] then Inr 0
      else
        let score = fold (\<lambda>(metric_id, value) score.
                            score + value * get_default METRIC_WEIGHTS metric_id 1) metrics 0
        in case py_max (map snd METRIC_WEIGHTS) of
             Inl e \<Rightarrow> Inl e
           | Inr max_weight \<Rightarrow>
               if divisor metrics max_weight = 0 then Inl ZeroDivisionError
               else Inr (score / divisor metrics max_weight))"

section \<open>Retrying HTTP request (\<open>igdb_popularity.py\<close>)\<close>

text \<open>
  The transport is a function from the number of requests issued so far to what the next
  request does: it raises an exception (a subclass of \<open>Exception\<close>: timeout, connection
  error) or it answers with a status code and a body. The log counts the requests issued
  and records the argument of every \<open>time.sleep\<close>.
\<close>

datatype 'b outcome = Raises | Responds nat 'b

record io_log =
  requests :: nat
  sleeps :: "nat list"

text \<open>\<open>resp.raise_for_status()\<close> raises \<open>HTTPError\<close> exactly on the statuses 400 to 599.\<close>

definition raise_for_status :: "nat \<Rightarrow> bool" where
  "raise_for_status status_code = (400 \<le> status_code \<and> status_code < 600)"

definition sleep :: "nat \<Rightarrow> io_log \<Rightarrow> io_log" where
  "sleep seconds io = io\<lparr>sleeps := sleeps io @ [seconds]\<rparr>"

text \<open>
  The body of \<open>for attempt in range(5)\<close>. Both the \<open>continue\<close> of the status-400 branch
  and the \<open>except Exception\<close> handler sleep \<open>2 ** attempt\<close> seconds and go on with the
  next attempt; falling out of the loop returns \<open>None\<close>.
\<close>

fun retry_loop ::
  "(nat \<Rightarrow> 'b outcome) \<Rightarrow> nat list \<Rightarrow> io_log \<Rightarrow> (nat \<times> 'b) option \<times> io_log" where
  "retry_loop transport [] io = (None, io)"
| "retry_loop transport (attempt # rest) io =
     (let io1 = io\<lparr>requests := Suc (requests io)\<rparr> in
      case transport (requests io) of
        Raises \<Rightarrow> retry_loop transport rest (sleep (2 ^ attempt) io1)
      | Responds status_code body \<Rightarrow>
          if status_code = 400 \<and> attempt < 4
          then retry_loop transport rest (sleep (2 ^ attempt) io1)
          else if raise_for_status status_code
          then retry_loop transport rest (sleep (2 ^ attempt) io1)
          else (Some (status_code, body), io1))"

definition retry_request :: "(nat \<Rightarrow> 'b outcome) \<Rightarrow> (nat \<times> 'b) option \<times> io_log" where
  "retry_request transport = retry_loop transport [0..<5] \<lparr>requests = 0, sleeps = []\<rparr>"

text \<open>An attempt fails when the request raises or answers with a status 400 to 599.\<close>

definition attempt_fails :: "'b outcome \<Rightarrow> bool" where
  "attempt_fails out = (case out of Raises \<Rightarrow> True | Responds c _ \<Rightarrow> raise_for_status c)"

section \<open>Popularity Merger (\<open>igdb_popularity.py\<close>, \<open>main\<close>)\<close>

definition isdigit :: "string \<Rightarrow> bool" where
  "isdigit s = (s \<noteq> [] \<and> list_all (\<lambda>c. c \<in> set ''0123456789'') s)"

type_synonym metric_map = "(string, real) dict"

text \<open>
  The JSON object loaded from the output file: the value under \<open>popularity_metrics\<close> and
  under \<open>popularity_types\<close> when the key is there, and whether it has any other key. The
  empty object (also used when there is no file) has neither.
\<close>

record existing_data =
  existing_popularity_metrics :: "(string, metric_map) dict option"
  existing_popularity_types :: "(string, string) dict option"
  other_keys :: bool

definition truthy_data :: "existing_data \<Rightarrow> bool" where
  "truthy_data d =
     (existing_popularity_metrics d \<noteq> None \<or> existing_popularity_types d \<noteq> None \<or> other_keys d)"

record store =
  popularity_types :: "(string, string) dict"
  popularity_metrics :: "(string, metric_map) dict"

datatype key_error = KeyError string

text \<open>
  One iteration of \<open>for key in existing_keys\<close>. Reading \<open>existing_metrics[key]\<close> and
  \<open>del existing_metrics[key]\<close> raise \<open>KeyError\<close> when the key is not there.
\<close>

definition reconcile_key ::
  "(string, string) dict \<Rightarrow> string \<Rightarrow> (string, 'm) dict \<Rightarrow> key_error + (string, 'm) dict" where
  "reconcile_key igdb_mapping key existing_metrics =
     (if isdigit key then
        (case map_of igdb_mapping key of
           None \<Rightarrow> Inr existing_metrics
         | Some game_key \<Rightarrow>
             (if \<not> contains existing_metrics game_key then
                (case map_of existing_metrics key of
                   None \<Rightarrow> Inl (KeyError key)
                 | Some m \<Rightarrow>
                     Inr (AList.delete key (AList.update game_key m existing_metrics)))
              else if contains existing_metrics key
              then Inr (AList.delete key existing_metrics)
              else Inl (KeyError key)))
      else Inr existing_metrics)"

fun reconcile_keys ::
  "(string, string) dict \<Rightarrow> string list \<Rightarrow> (string, 'm) dict \<Rightarrow> key_error + (string, 'm) dict" where
  "reconcile_keys igdb_mapping [] existing_metrics = Inr existing_metrics"
| "reconcile_keys igdb_mapping (key # rest) existing_metrics =
     (case reconcile_key igdb_mapping key existing_metrics of
        Inl e \<Rightarrow> Inl e
      | Inr existing_metrics' \<Rightarrow> reconcile_keys igdb_mapping rest existing_metrics')"

text \<open>
  The legacy-key reconciliation of a prior metrics mapping: the loop runs over a copy of
  its keys taken before the first iteration.
\<close>

definition reconcile_legacy ::
  "(string, string) dict \<Rightarrow> (string, 'm) dict \<Rightarrow> key_error + (string, 'm) dict" where
  "reconcile_legacy igdb_mapping existing_metrics =
     reconcile_keys igdb_mapping (keys existing_metrics) existing_metrics"

text \<open>\<open>existing_data.get('popularity_metrics', {})\<close> and the same for the types.\<close>

definition get_popularity_metrics :: "existing_data \<Rightarrow> (string, metric_map) dict" where
  "get_popularity_metrics existing =
     (case existing_popularity_metrics existing of None \<Rightarrow> [] | Some m \<Rightarrow> m)"

definition get_popularity_types :: "existing_data \<Rightarrow> (string, string) dict" where
  "get_popularity_types existing =
     (case existing_popularity_types existing of None \<Rightarrow> [] | Some t \<Rightarrow> t)"

text \<open>
  The merge of \<open>main\<close> (from \<open>if existing_data:\<close> to the construction of \<open>output\<close>):
  legacy-key reconciliation, overlay of the fetched metrics, update of the fetched type
  names with the prior ones.
\<close>

definition merge_popularity ::
  "(string, string) dict \<Rightarrow> existing_data \<Rightarrow> (string, metric_map) dict \<Rightarrow>
     (string, string) dict \<Rightarrow> key_error + store" where
  "merge_popularity igdb_mapping existing metrics_by_game types_dict =
     (if truthy_data existing then
        (let existing_metrics = get_popularity_metrics existing
         in case reconcile_legacy igdb_mapping existing_metrics of
              Inl e \<Rightarrow> Inl e
            | Inr reconciled \<Rightarrow>
                (let existing_types = get_popularity_types existing
                 in Inr \<lparr>popularity_types = dict_update types_dict existing_types,
                         popularity_metrics = dict_update reconciled metrics_by_game\<rparr>))
      else Inr \<lparr>popularity_types = types_dict, popularity_metrics = metrics_by_game\<rparr>)"

text \<open>
  A key the reconciliation loop treats as a legacy key: purely numeric and a key of the
  external-identifier mapping. \<open>remap\<close> is one iteration of the loop seen on the mapping
  that the dictionary represents.
\<close>

definition remappable :: "(string, string) dict \<Rightarrow> string \<Rightarrow> bool" where
  "remappable igdb_mapping k = (isdigit k \<and> contains igdb_mapping k)"

definition remap ::
  "(string, string) dict \<Rightarrow> string \<Rightarrow> (string \<rightharpoonup> 'm) \<Rightarrow> (string \<rightharpoonup> 'm)" where
  "remap igdb_mapping key m =
     (case (if isdigit key then map_of igdb_mapping key else None) of
        None \<Rightarrow> m
      | Some game_key \<Rightarrow> (if m game_key = None then m(game_key := m key) else m)(key := None))"

text \<open>
  No entry name of the run (a value of the external-identifier mapping or a key of the
  fetched metrics) is itself a legacy key.
\<close>

definition no_numeric_alias :: "(string, string) dict \<Rightarrow> (string, 'm) dict \<Rightarrow> bool" where
  "no_numeric_alias igdb_mapping metrics_by_game =
     list_all (\<lambda>name. \<not> remappable igdb_mapping name)
       (map snd igdb_mapping @ keys metrics_by_game)"

text \<open>The written store, as the object the next run loads.\<close>

definition persisted :: "store \<Rightarrow> existing_data" where
  "persisted s =
     \<lparr>existing_popularity_metrics = Some (popularity_metrics s),
      existing_popularity_types = Some (popularity_types s),
      other_keys = False\<rparr>"

section \<open>Ranker filter (\<open>rank_games_by_popularity.py\<close>, \<open>get_port_data\<close>)\<close>

definition lower_char :: "char \<Rightarrow> char" where
  "lower_char c =
     (case map_of (zip ''ABCDEFGHIJKLMNOPQRSTUVWXYZ'' ''abcdefghijklmnopqrstuvwxyz'') c of
        None \<Rightarrow> c
      | Some l \<Rightarrow> l)"

definition lower :: "string \<Rightarrow> string" where
  "lower s = map lower_char s"

text \<open>\<open>port_name.replace('.zip', '')\<close>: every occurrence, scanning from the left.\<close>

fun replace_zip :: "string \<Rightarrow> string" where
  "replace_zip (a # b # c # d # rest) =
     (if [a, b, c, d] = ''.zip'' then replace_zip rest
      else a # replace_zip (b # c # d # rest))"
| "replace_zip s = s"

text \<open>
  An entry of the catalog file: the object under \<open>attr\<close>, when there is one, with the
  members the ranker reads, each of which may be missing.
\<close>

record port_attr =
  attr_title :: "string option"
  attr_rtr :: "bool option"
  attr_genres :: "string list option"
  attr_availability :: "string option"

record port_info =
  attr :: "port_attr option"

text \<open>\<open>port_info.get('attr', {}).get(member, default)\<close>\<close>

definition get_rtr :: "port_info \<Rightarrow> bool" where
  "get_rtr info =
     (case attr info of None \<Rightarrow> False
      | Some a \<Rightarrow> (case attr_rtr a of None \<Rightarrow> False | Some b \<Rightarrow> b))"

definition get_genres :: "port_info \<Rightarrow> string list" where
  "get_genres info =
     (case attr info of None \<Rightarrow> []
      | Some a \<Rightarrow> (case attr_genres a of None \<Rightarrow> [] | Some gs \<Rightarrow> gs))"

definition get_title :: "port_info \<Rightarrow> string \<Rightarrow> string" where
  "get_title info dflt =
     (case attr info of None \<Rightarrow> dflt
      | Some a \<Rightarrow> (case attr_title a of None \<Rightarrow> dflt | Some t \<Rightarrow> t))"

definition get_availability :: "port_info \<Rightarrow> string option" where
  "get_availability info =
     (case attr info of None \<Rightarrow> None | Some a \<Rightarrow> attr_availability a)"

record port =
  name :: string
  title :: string
  rtr :: bool
  genres :: "string list"
  availability :: "string option"

text \<open>The dictionary appended to \<open>port_data\<close> for a retained entry.\<close>

definition port_entry :: "string \<Rightarrow> port_info \<Rightarrow> port" where
  "port_entry port_name info =
     (let port_key = replace_zip port_name in
      \<lparr>name = port_key, title = get_title info port_key, rtr = get_rtr info,
       genres = get_genres info, availability = get_availability info\<rparr>)"

text \<open>
  The loop of \<open>get_port_data\<close> with its two \<open>continue\<close> statements. \<open>if genre_filter:\<close>
  holds for a string that is given and not empty.
\<close>

fun port_loop ::
  "bool \<Rightarrow> string option \<Rightarrow> (string \<times> port_info) list \<Rightarrow> port list \<Rightarrow> port list" where
  "port_loop only_rtr genre_filter [] port_data = port_data"
| "port_loop only_rtr genre_filter ((port_name, info) # rest) port_data =
     (if only_rtr \<and> \<not> get_rtr info
      then port_loop only_rtr genre_filter rest port_data
      else if (case genre_filter of
                 None \<Rightarrow> False
               | Some g \<Rightarrow> g \<noteq> [] \<and> lower g \<notin> set (map lower (get_genres info)))
      then port_loop only_rtr genre_filter rest port_data
      else port_loop only_rtr genre_filter rest (port_data @ [port_entry port_name info]))"

text \<open>
  \<open>ports_info\<close> is given by the object under its key \<open>ports\<close>; \<open>None\<close> stands for a
  catalog that is empty or has no such key, for which the function returns no entry.
\<close>

definition get_port_data ::
  "(string, port_info) dict option \<Rightarrow> bool \<Rightarrow> string option \<Rightarrow> port list" where
  "get_port_data ports_info only_rtr genre_filter =
     (case ports_info of
        None \<Rightarrow> []
      | Some ports \<Rightarrow> port_loop only_rtr genre_filter ports [])"

section \<open>ID Extractor (\<open>update_game_ids.py\<close>)\<close>

subsection \<open>The merge into the persisted index (\<open>extract_game_ids\<close>)\<close>

record 'v merge_state =
  merged_game_ids :: "(string, (string, 'v) dict) dict"
  new_entries :: nat
  updated_entries :: nat

text \<open>
  The inner loop over \<open>port_ids.items()\<close> for an entry that is in the index: the entry
  and the counter \<open>updated_entries\<close> are threaded through.
\<close>

fun update_fields ::
  "(string \<times> 'v) list \<Rightarrow> (string, 'v) dict \<times> nat \<Rightarrow> (string, 'v) dict \<times> nat" where
  "update_fields [] acc = acc"
| "update_fields ((field, v) # rest) (entry, updated) =
     (if \<not> contains entry field \<or> map_of entry field \<noteq> Some v
      then update_fields rest (AList.update field v entry, Suc updated)
      else update_fields rest (entry, updated))"

text \<open>
  The body of \<open>for port_name, port_ids in new_game_ids.items()\<close>: an entry that is not in
  the index is added as it is, an entry that is there gets its fields updated.
\<close>

definition merge_entry :: "string \<times> (string, 'v) dict \<Rightarrow> 'v merge_state \<Rightarrow> 'v merge_state" where
  "merge_entry item st =
     (case item of (port_name, port_ids) \<Rightarrow>
        (case map_of (merged_game_ids st) port_name of
           None \<Rightarrow>
             st\<lparr>merged_game_ids := AList.update port_name port_ids (merged_game_ids st),
                new_entries := Suc (new_entries st)\<rparr>
         | Some entry \<Rightarrow>
             (case update_fields port_ids (entry, updated_entries st) of
                (entry', updated) \<Rightarrow>
                  st\<lparr>merged_game_ids := AList.update port_name entry' (merged_game_ids st),
                     updated_entries := updated\<rparr>)))"

fun merge_loop ::
  "(string \<times> (string, 'v) dict) list \<Rightarrow> 'v merge_state \<Rightarrow> 'v merge_state" where
  "merge_loop [] st = st"
| "merge_loop (item # rest) st = merge_loop rest (merge_entry item st)"

definition merge_game_ids ::
  "(string, (string, 'v) dict) dict \<Rightarrow> (string, (string, 'v) dict) dict \<Rightarrow> 'v merge_state" where
  "merge_game_ids existing_game_ids new_game_ids =
     merge_loop new_game_ids
       \<lparr>merged_game_ids = existing_game_ids, new_entries = 0, updated_entries = 0\<rparr>"

text \<open>The fields of \<open>port_ids\<close> that the inner loop writes into the entry \<open>entry\<close>.\<close>

definition written_fields :: "(string, 'v) dict \<Rightarrow> (string, 'v) dict \<Rightarrow> (string \<times> 'v) list" where
  "written_fields entry port_ids = filter (\<lambda>(field, v). map_of entry field \<noteq> Some v) port_ids"

subsection \<open>Removal of the identifier fields (\<open>remove_ids_from_ports\<close>)\<close>

text \<open>
  The ports directory is a dictionary from entry names to nodes, a node being a plain
  file or a directory of plain files. A \<open>port.json\<close> is read as its \<open>attr\<close> object, when
  it has one, and the rest of its members. \<open>json.load\<close> (with \<open>None\<close> for a
  \<open>JSONDecodeError\<close>) and \<open>json.dump\<close> are parameters of the model.
\<close>

datatype 'c node = File 'c | Dir "(string, 'c) dict"

record ('v, 'r) port_data =
  attr_object :: "(string, 'v) dict option"
  other_members :: 'r

definition id_fields :: "string list" where
  "id_fields = [''igdb_id'', ''steam_id'', ''itchio_url'', ''igdb_visits'']"

text \<open>\<open>port_data.get('attr', {})\<close>\<close>

definition get_attr :: "('v, 'r) port_data \<Rightarrow> (string, 'v) dict" where
  "get_attr port_data = (case attr_object port_data of None \<Rightarrow> [] | Some a \<Rightarrow> a)"

text \<open>The loop \<open>for field in id_fields\<close>, on the loaded data and the flag \<open>modified\<close>.\<close>

fun remove_fields ::
  "string list \<Rightarrow> ('v, 'r) port_data \<times> bool \<Rightarrow> ('v, 'r) port_data \<times> bool" where
  "remove_fields [] acc = acc"
| "remove_fields (field # rest) (port_data, modified) =
     (if contains (get_attr port_data) field
      then remove_fields rest
             (port_data\<lparr>attr_object := map_option (AList.delete field) (attr_object port_data)\<rparr>,
              True)
      else remove_fields rest (port_data, modified))"

text \<open>
  One port directory: \<open>os.rename\<close> moves \<open>port.json\<close> to \<open>port.json.bak\<close> (replacing a
  backup that is there), then the updated data is written to a new \<open>port.json\<close>.
\<close>

definition process_port ::
  "('c \<Rightarrow> ('v, 'r) port_data option) \<Rightarrow> (('v, 'r) port_data \<Rightarrow> 'c) \<Rightarrow>
     (string, 'c) dict \<Rightarrow> (string, 'c) dict" where
  "process_port json_load json_dump port_dir =
     (case map_of port_dir ''port.json'' of
        None \<Rightarrow> port_dir
      | Some content \<Rightarrow>
          (case json_load content of
             None \<Rightarrow> port_dir
           | Some port_data \<Rightarrow>
               (let (port_data', modified) = remove_fields id_fields (port_data, False)
                in if modified
                   then AList.update ''port.json'' (json_dump port_data')
                          (AList.update ''port.json.bak'' content
                             (AList.delete ''port.json'' port_dir))
                   else port_dir)))"

fun remove_loop ::
  "('c \<Rightarrow> ('v, 'r) port_data option) \<Rightarrow> (('v, 'r) port_data \<Rightarrow> 'c) \<Rightarrow>
     string list \<Rightarrow> (string, 'c node) dict \<Rightarrow> (string, 'c node) dict" where
  "remove_loop json_load json_dump [] ports = ports"
| "remove_loop json_load json_dump (port_name # rest) ports =
     (case map_of ports port_name of
        Some (Dir port_dir) \<Rightarrow>
          remove_loop json_load json_dump rest
            (AList.update port_name (Dir (process_port json_load json_dump port_dir)) ports)
      | _ \<Rightarrow> remove_loop json_load json_dump rest ports)"

text \<open>\<open>os.listdir(ports_dir)\<close> gives the names of the directory, each once.\<close>

definition remove_ids_from_ports ::
  "('c \<Rightarrow> ('v, 'r) port_data option) \<Rightarrow> (('v, 'r) port_data \<Rightarrow> 'c) \<Rightarrow>
     (string, 'c node) dict \<Rightarrow> (string, 'c node) dict" where
  "remove_ids_from_ports json_load json_dump ports =
     remove_loop json_load json_dump (keys ports) ports"

text \<open>The data with every field of the list removed from its \<open>attr\<close> object.\<close>

definition without_fields :: "string list \<Rightarrow> ('v, 'r) port_data \<Rightarrow> ('v, 'r) port_data" where
  "without_fields removed port_data =
     port_data\<lparr>attr_object :=
       map_option (filter (\<lambda>(k, v). k \<notin> set removed)) (attr_object port_data)\<rparr>"

section \<open>Properties of the Scorer\<close>

lemma py_max_METRIC_WEIGHTS: "py_max (map snd METRIC_WEIGHTS) = Inr 5"
  by (simp add: METRIC_WEIGHTS_def)

lemma Max_METRIC_WEIGHTS: "Max (snd ` set METRIC_WEIGHTS) = 5"
  by (simp add: METRIC_WEIGHTS_def)

lemma score_loop:
  "fold (\<lambda>(metric_id, value) score. score + value * w metric_id) metrics (a::real) =
     a + (\<Sum>(metric_id, value) \<leftarrow> metrics. value * w metric_id)"
  by (induction metrics arbitrary: a) (auto simp: algebra_simps)

text \<open>
  C1. The score of a metric mapping is the sum, over the metrics present, of the value
  times the weight of its code (1 for a code outside the table), divided by the number of
  metrics times the largest weight of the table; the empty mapping scores 0, and the
  metrics \<open>{"3": 10, "4": 10}\<close> score 9.
\<close>

theorem calculate_popularity_score_formula:
  "calculate_popularity_score metrics =
     Inr (if metrics = [] then 0
          else (\<Sum>(code, v) \<leftarrow> metrics.
                  v * (case map_of METRIC_WEIGHTS code of Some w \<Rightarrow> w | None \<Rightarrow> 1))
               / (real (length metrics) * Max (snd ` set METRIC_WEIGHTS)))
   \<and> calculate_popularity_score [] = Inr 0
   \<and> calculate_popularity_score [(''3'', 10), (''4'', 10)] = Inr 9"
proof -
  have w: "get_default METRIC_WEIGHTS c 1 =
             (case map_of METRIC_WEIGHTS c of Some w \<Rightarrow> w | None \<Rightarrow> 1)" for c
    by (simp add: get_default_def split: option.splits)
  have gen: "calculate_popularity_score ms =
     Inr (if ms = [] then 0
          else (\<Sum>(code, v) \<leftarrow> ms.
                  v * (case map_of METRIC_WEIGHTS code of Some w \<Rightarrow> w | None \<Rightarrow> 1))
               / (real (length ms) * Max (snd ` set METRIC_WEIGHTS)))" for ms
  proof (cases "ms = []")
    case True
    then show ?thesis by (simp add: calculate_popularity_score_def)
  next
    case False
    then have "divisor ms 5 \<noteq> 0" by (simp add: divisor_def)
    with False show ?thesis
      unfolding calculate_popularity_score_def Let_def py_max_METRIC_WEIGHTS
        Max_METRIC_WEIGHTS w score_loop
      by (simp add: divisor_def)
  qed
  have ex: "calculate_popularity_score [(''3'', 10), (''4'', 10)] = Inr 9"
    unfolding gen Max_METRIC_WEIGHTS by (simp add: METRIC_WEIGHTS_def)
  show ?thesis using gen [of metrics] gen [of "[]"] ex by simp
qed

theorem calculate_popularity_score_formula_witness:
  "calculate_popularity_score [(''1'', 4), (''zz'', 6)] = Inr 1"
  using calculate_popularity_score_formula [of "[(''1'', 4), (''zz'', 6)]"]
  unfolding Max_METRIC_WEIGHTS by (simp add: METRIC_WEIGHTS_def)

text \<open>
  C10. The Scorer never divides by zero: the table's maximum exists and is 5, the divisor
  of a non-empty mapping is strictly positive, and every mapping gets a score (no error
  branch is taken).
\<close>

theorem calculate_popularity_score_no_zero_division:
  "py_max (map snd METRIC_WEIGHTS) = Inr 5
   \<and> METRIC_WEIGHTS \<noteq> [] \<and> (\<forall>w \<in> snd ` set METRIC_WEIGHTS. 0 < w)
   \<and> (metrics \<noteq> [] \<longrightarrow> 0 < divisor metrics 5)
   \<and> (\<exists>r. calculate_popularity_score metrics = Inr r)"
proof -
  have pos: "\<forall>w \<in> snd ` set METRIC_WEIGHTS. 0 < w"
    by (simp add: METRIC_WEIGHTS_def)
  have ne: "METRIC_WEIGHTS \<noteq> []"
    by (simp add: METRIC_WEIGHTS_def)
  have d: "metrics \<noteq> [] \<longrightarrow> 0 < divisor metrics 5"
    by (simp add: divisor_def)
  have "\<exists>r. calculate_popularity_score metrics = Inr r"
  proof (cases "metrics = []")
    case True
    then show ?thesis by (simp add: calculate_popularity_score_def)
  next
    case False
    with d have "divisor metrics 5 \<noteq> 0" by simp
    with False show ?thesis
      unfolding calculate_popularity_score_def Let_def py_max_METRIC_WEIGHTS by simp
  qed
  with pos ne d py_max_METRIC_WEIGHTS show ?thesis by blast
qed

theorem calculate_popularity_score_no_zero_division_witness:
  "[(''3'', 10 :: real)] \<noteq> [] \<and> 0 < divisor [(''3'', 10)] 5
   \<and> (\<exists>r. calculate_popularity_score [(''3'', 10)] = Inr r)"
  using calculate_popularity_score_no_zero_division [of "[(''3'', 10)]"] by simp

section \<open>Properties of the retrying request\<close>

lemma retry_loop_requests:
  "requests (snd (retry_loop transport attempts io)) \<le> requests io + length attempts"
proof (induction attempts arbitrary: io)
  case Nil
  show ?case by simp
next
  case (Cons attempt rest)
  have step: "requests (snd (retry_loop transport rest
                  (sleep s (io\<lparr>requests := Suc (requests io)\<rparr>))))
                \<le> Suc (requests io + length rest)" for s
    using Cons.IH [of "sleep s (io\<lparr>requests := Suc (requests io)\<rparr>)"]
    by (simp add: sleep_def)
  show ?case
    by (cases "transport (requests io)") (auto simp: Let_def step)
qed

lemma retry_loop_all_fail:
  "(\<And>i. i < length attempts \<Longrightarrow> attempt_fails (transport (requests io + i))) \<Longrightarrow>
   retry_loop transport attempts io =
     (None, \<lparr>requests = requests io + length attempts,
             sleeps = sleeps io @ map (\<lambda>attempt. 2 ^ attempt) attempts\<rparr>)"
proof (induction attempts arbitrary: io)
  case Nil
  show ?case by simp
next
  case (Cons attempt rest)
  let ?io = "sleep (2 ^ attempt) (io\<lparr>requests := Suc (requests io)\<rparr>)"
  have "attempt_fails (transport (requests ?io + i))" if "i < length rest" for i
    using Cons.prems [of "Suc i"] that by (simp add: sleep_def)
  then have rest: "retry_loop transport rest ?io =
     (None, \<lparr>requests = requests ?io + length rest,
             sleeps = sleeps ?io @ map (\<lambda>attempt. 2 ^ attempt) rest\<rparr>)"
    by (rule Cons.IH)
  have here: "attempt_fails (transport (requests io))"
    using Cons.prems [of 0] by simp
  show ?case
  proof (cases "transport (requests io)")
    case Raises
    then show ?thesis by (simp add: Let_def rest) (simp add: sleep_def)
  next
    case (Responds status_code body)
    with here have "raise_for_status status_code" by (simp add: attempt_fails_def)
    with Responds show ?thesis by (simp add: Let_def rest) (simp add: sleep_def)
  qed
qed

text \<open>
  C2. The retrying request issues at most 5 requests, whatever the transport does; and
  when each of the 5 attempts fails (the request raises, or answers with the bad-request
  status 400 or with any other error status) it returns \<open>None\<close>, after exactly 5
  requests and the back-off sleeps of 1, 2, 4, 8 and 16 seconds. The result type has no
  exception: every failure inside the loop is caught there.
\<close>

theorem retry_request_bounded:
  "requests (snd (retry_request transport)) \<le> 5
   \<and> ((\<forall>i<5. attempt_fails (transport i)) \<longrightarrow>
        retry_request transport = (None, \<lparr>requests = 5, sleeps = [1, 2, 4, 8, 16]\<rparr>))"
proof -
  have r: "[0..<5] = [0, 1, 2, 3, 4]"
    by (simp add: upt_rec)
  have le: "requests (snd (retry_request transport)) \<le> 5"
    using retry_loop_requests [of transport "[0..<5]" "\<lparr>requests = 0, sleeps = []\<rparr>"]
    by (simp add: retry_request_def)
  have "retry_request transport = (None, \<lparr>requests = 5, sleeps = [1, 2, 4, 8, 16]\<rparr>)"
    if "\<forall>i<5. attempt_fails (transport i)"
    using that
      retry_loop_all_fail [of "[0..<5]" transport "\<lparr>requests = 0, sleeps = []\<rparr>"]
    unfolding retry_request_def by (simp add: r)
  with le show ?thesis by blast
qed

theorem retry_request_bounded_witness:
  "retry_request (\<lambda>i. if i < 2 then Raises else Responds (if i = 4 then 400 else 503) ())
     = (None, \<lparr>requests = 5, sleeps = [1, 2, 4, 8, 16]\<rparr>)"
proof -
  have h: "\<forall>i<5. attempt_fails
       ((\<lambda>i::nat. if i < 2 then Raises else Responds (if i = 4 then 400 else 503) ()) i)"
    by (simp add: attempt_fails_def raise_for_status_def)
  show ?thesis
    using h retry_request_bounded
      [of "\<lambda>i. if i < 2 then Raises else Responds (if i = 4 then 400 else 503) ()"]
    by blast
qed

section \<open>Properties of the Popularity Merger\<close>

lemma contains_map_of: "contains d k \<longleftrightarrow> map_of d k \<noteq> None"
  by (simp add: contains_def keys_def map_of_eq_None_iff)

lemma dict_update_map_of:
  "distinct (keys other) \<Longrightarrow> map_of (dict_update d other) = map_of d ++ map_of other"
proof (induction other arbitrary: d)
  case Nil
  show ?case by (simp add: dict_update_def)
next
  case (Cons kv other)
  obtain k v where kv: "kv = (k, v)" by (cases kv)
  from Cons.prems kv have d: "distinct (keys other)" and k: "map_of other k = None"
    by (auto simp: keys_def map_of_eq_None_iff)
  have "map_of (dict_update d (kv # other)) = map_of (dict_update (AList.update k v d) other)"
    by (simp add: dict_update_def kv)
  also have "\<dots> = map_of (AList.update k v d) ++ map_of other"
    by (rule Cons.IH [OF d])
  also have "\<dots> = map_of d ++ map_of (kv # other)"
    using k by (auto simp: kv map_add_def fun_eq_iff AList.update_conv' split: option.splits)
  finally show ?case .
qed

lemma reconcile_key_map:
  "reconcile_key igdb_mapping key em = Inr em' \<Longrightarrow>
     map_of em' = remap igdb_mapping key (map_of em)"
  by (auto simp: reconcile_key_def remap_def contains_map_of AList.update_conv'
        AList.delete_conv' split: if_splits option.splits)

lemma reconcile_key_total:
  "contains em key \<Longrightarrow> \<exists>em'. reconcile_key igdb_mapping key em = Inr em'"
  by (auto simp: reconcile_key_def contains_map_of split: option.splits)

lemma reconcile_key_id:
  "\<not> remappable igdb_mapping key \<Longrightarrow> reconcile_key igdb_mapping key em = Inr em"
  by (auto simp: reconcile_key_def remappable_def contains_map_of split: option.splits)

lemma remap_keeps:
  "k \<noteq> key \<or> \<not> isdigit k \<Longrightarrow> m k = Some v \<Longrightarrow> remap igdb_mapping key m k = Some v"
  by (auto simp: remap_def split: option.splits)

lemma reconcile_key_contains:
  assumes "reconcile_key igdb_mapping key em = Inr em'" "k \<noteq> key" "contains em k"
  shows "contains em' k"
proof -
  from assms(3) obtain v where "map_of em k = Some v"
    by (auto simp: contains_map_of)
  with assms(2) have "remap igdb_mapping key (map_of em) k = Some v"
    by (simp add: remap_keeps)
  with reconcile_key_map [OF assms(1)] show ?thesis
    by (simp add: contains_map_of)
qed

lemma reconcile_keys_total:
  "distinct ks \<Longrightarrow> (\<And>k. k \<in> set ks \<Longrightarrow> contains em k) \<Longrightarrow>
     \<exists>s. reconcile_keys igdb_mapping ks em = Inr s"
proof (induction ks arbitrary: em)
  case Nil
  show ?case by simp
next
  case (Cons key rest)
  from Cons.prems(2) [of key] obtain em' where
    step: "reconcile_key igdb_mapping key em = Inr em'"
    using reconcile_key_total by fastforce
  have "contains em' k" if "k \<in> set rest" for k
  proof -
    from that Cons.prems(1) have "k \<noteq> key" by auto
    moreover from that have "contains em k" by (simp add: Cons.prems(2))
    ultimately show ?thesis by (rule reconcile_key_contains [OF step])
  qed
  with Cons.IH [of em'] Cons.prems(1) obtain s where
    "reconcile_keys igdb_mapping rest em' = Inr s" by auto
  with step show ?case by simp
qed

lemma reconcile_keys_keeps:
  "reconcile_keys igdb_mapping ks em = Inr s \<Longrightarrow> k \<notin> set ks \<or> \<not> isdigit k \<Longrightarrow>
     map_of em k = Some v \<Longrightarrow> map_of s k = Some v"
proof (induction ks arbitrary: em)
  case Nil
  then show ?case by simp
next
  case (Cons key rest)
  from Cons.prems(1) obtain em' where
    step: "reconcile_key igdb_mapping key em = Inr em'" and
    rest: "reconcile_keys igdb_mapping rest em' = Inr s"
    by (auto split: sum.splits)
  from Cons.prems(2) have "k \<noteq> key \<or> \<not> isdigit k" by auto
  then have "map_of em' k = Some v"
    using Cons.prems(3) by (simp add: reconcile_key_map [OF step] remap_keeps)
  moreover from Cons.prems(2) have "k \<notin> set rest \<or> \<not> isdigit k" by auto
  ultimately show ?case using Cons.IH [OF rest] by blast
qed

lemma reconcile_keys_append:
  "reconcile_keys igdb_mapping (xs @ ys) em =
     (case reconcile_keys igdb_mapping xs em of
        Inl e \<Rightarrow> Inl e
      | Inr s \<Rightarrow> reconcile_keys igdb_mapping ys s)"
  by (induction xs arbitrary: em) (auto split: sum.splits)

lemma reconcile_legacy_total:
  "distinct (keys em) \<Longrightarrow> \<exists>s. reconcile_legacy igdb_mapping em = Inr s"
  unfolding reconcile_legacy_def
  by (rule reconcile_keys_total) (auto simp: contains_def)

text \<open>
  C3. Legacy-key reconciliation. Take a prior metrics mapping and one of its keys that is
  purely numeric and a key of the external-identifier mapping, which sends it to
  \<open>game_key\<close>. The loop reaches that key in a state \<open>s\<close> where it still holds its prior
  sub-mapping; its iteration leads to \<open>s'\<close>, where the numeric key is gone whether or not
  a copy was made, where \<open>game_key\<close> holds that sub-mapping if it had no entry in \<open>s\<close> and
  keeps its own entry otherwise, and where every other key is as in \<open>s\<close>. The whole
  loop raises no \<open>KeyError\<close>.
\<close>

theorem legacy_key_reconciliation:
  assumes "distinct (keys prior)"
    and "keys prior = before @ key # after"
    and "isdigit key"
    and "map_of igdb_mapping key = Some game_key"
  shows "\<exists>s s' final.
           reconcile_keys igdb_mapping before prior = Inr s
         \<and> reconcile_key igdb_mapping key s = Inr s'
         \<and> reconcile_keys igdb_mapping after s' = Inr final
         \<and> reconcile_legacy igdb_mapping prior = Inr final
         \<and> map_of s key = map_of prior key
         \<and> \<not> contains s' key
         \<and> (game_key \<noteq> key \<longrightarrow>
              map_of s' game_key =
                (if contains s game_key then map_of s game_key else map_of prior key))
         \<and> (\<forall>k. k \<noteq> key \<and> k \<noteq> game_key \<longrightarrow> map_of s' k = map_of s k)"
proof -
  from assms(1,2) have d: "distinct before" and nb: "key \<notin> set before"
    by auto
  have inp: "contains prior k" if "k \<in> set (before @ key # after)" for k
    using that assms(2) by (simp add: contains_def)
  from reconcile_keys_total [OF d, of prior igdb_mapping] inp obtain s where
    s: "reconcile_keys igdb_mapping before prior = Inr s" by auto
  from inp [of key] obtain v where v: "map_of prior key = Some v"
    by (auto simp: contains_map_of)
  from reconcile_keys_keeps [OF s _ v] nb have sk: "map_of s key = Some v"
    by simp
  then have "contains s key" by (simp add: contains_map_of)
  then obtain s' where s': "reconcile_key igdb_mapping key s = Inr s'"
    using reconcile_key_total by blast
  from reconcile_legacy_total [OF assms(1), of igdb_mapping] obtain final where
    final: "reconcile_legacy igdb_mapping prior = Inr final" by auto
  then have after: "reconcile_keys igdb_mapping after s' = Inr final"
    by (simp add: reconcile_legacy_def assms(2) reconcile_keys_append s s')
  have m: "map_of s' = remap igdb_mapping key (map_of s)"
    by (rule reconcile_key_map [OF s'])
  have gone: "\<not> contains s' key"
    by (simp add: contains_map_of m remap_def assms(3,4))
  have gk: "map_of s' game_key =
              (if contains s game_key then map_of s game_key else map_of prior key)"
    if "game_key \<noteq> key"
    using that by (auto simp: m remap_def assms(3,4) contains_map_of sk v)
  have other: "map_of s' k = map_of s k" if "k \<noteq> key \<and> k \<noteq> game_key" for k
    using that by (simp add: m remap_def assms(3,4))
  from s s' after final sk v gone gk other show ?thesis by auto
qed

theorem legacy_key_reconciliation_witness:
  "reconcile_legacy [(''77'', ''celeste''), (''88'', ''doom'')]
      [(''77'', [(''1'', 3 :: real)]), (''doom'', [(''2'', 4)]), (''88'', [(''1'', 9)])]
     = Inr [(''doom'', [(''2'', 4)]), (''celeste'', [(''1'', 3)])]"
proof -
  let ?ig = "[(''77'', ''celeste''), (''88'', ''doom'')]"
  let ?prior = "[(''77'', [(''1'', 3 :: real)]), (''doom'', [(''2'', 4)]), (''88'', [(''1'', 9)])]"
  have a1: "distinct (keys ?prior)" by (simp add: keys_def)
  have a2: "keys ?prior = [] @ ''77'' # [''doom'', ''88'']" by (simp add: keys_def)
  have a3: "isdigit ''77''" by (simp add: isdigit_def)
  have a4: "map_of ?ig ''77'' = Some ''celeste''" by simp
  from legacy_key_reconciliation [OF a1 a2 a3 a4]
  obtain final where "reconcile_legacy ?ig ?prior = Inr final" by blast
  moreover have "reconcile_legacy ?ig ?prior
     = Inr [(''doom'', [(''2'', 4)]), (''celeste'', [(''1'', 3)])]"
    by (simp add: reconcile_legacy_def keys_def reconcile_key_def isdigit_def contains_def)
  ultimately show ?thesis by simp
qed

lemma dict_update_distinct:
  "distinct (keys d) \<Longrightarrow> distinct (keys (dict_update d other))"
proof (induction other arbitrary: d)
  case Nil
  then show ?case by (simp add: dict_update_def)
next
  case (Cons kv other)
  obtain k v where kv: "kv = (k, v)" by (cases kv)
  from Cons.prems have "distinct (keys (AList.update k v d))"
    unfolding keys_def by (rule AList.distinct_update)
  from Cons.IH [OF this] show ?case
    by (simp add: dict_update_def kv)
qed

lemma merge_popularity_truthy:
  "truthy_data existing \<Longrightarrow>
   reconcile_legacy igdb_mapping (get_popularity_metrics existing) = Inr s \<Longrightarrow>
   merge_popularity igdb_mapping existing metrics_by_game types_dict =
     Inr \<lparr>popularity_types = dict_update types_dict (get_popularity_types existing),
          popularity_metrics = dict_update s metrics_by_game\<rparr>"
  by (simp add: merge_popularity_def)

lemma merge_popularity_falsy:
  "\<not> truthy_data existing \<Longrightarrow>
   merge_popularity igdb_mapping existing metrics_by_game types_dict =
     Inr \<lparr>popularity_types = types_dict, popularity_metrics = metrics_by_game\<rparr>"
  by (simp add: merge_popularity_def)

lemma falsy_gets:
  "\<not> truthy_data existing \<Longrightarrow>
     get_popularity_metrics existing = [] \<and> get_popularity_types existing = []"
  by (simp add: truthy_data_def get_popularity_metrics_def get_popularity_types_def)

text \<open>
  C4. A canonical (not purely numeric) entry name of the prior metrics mapping is a key
  of the merged metrics mapping; its sub-mapping there is the fetched one when the entry
  was fetched in this run, and the prior one otherwise.
\<close>

theorem canonical_entry_survives:
  assumes "distinct (keys (get_popularity_metrics existing))"
    and "distinct (keys metrics_by_game)"
    and "map_of (get_popularity_metrics existing) x = Some prior_sub"
    and "\<not> isdigit x"
  shows "\<exists>out. merge_popularity igdb_mapping existing metrics_by_game types_dict = Inr out
           \<and> contains (popularity_metrics out) x
           \<and> map_of (popularity_metrics out) x =
               Some (case map_of metrics_by_game x of
                       Some fetched_sub \<Rightarrow> fetched_sub
                     | None \<Rightarrow> prior_sub)"
proof -
  have t: "truthy_data existing"
  proof (rule ccontr)
    assume "\<not> truthy_data existing"
    then have "get_popularity_metrics existing = []" by (simp add: falsy_gets)
    with assms(3) show False by simp
  qed
  from reconcile_legacy_total [OF assms(1), of igdb_mapping] obtain s where
    s: "reconcile_legacy igdb_mapping (get_popularity_metrics existing) = Inr s" by auto
  have "map_of s x = Some prior_sub"
    using s assms(3,4) unfolding reconcile_legacy_def
    by (auto intro: reconcile_keys_keeps)
  then have "map_of (dict_update s metrics_by_game) x =
               Some (case map_of metrics_by_game x of
                       Some fetched_sub \<Rightarrow> fetched_sub
                     | None \<Rightarrow> prior_sub)"
    by (simp add: dict_update_map_of [OF assms(2)] map_add_def split: option.splits)
  then show ?thesis
    by (simp add: merge_popularity_truthy [OF t s] contains_map_of)
qed

theorem canonical_entry_survives_witness:
  "\<exists>out. merge_popularity [(''77'', ''celeste'')]
            \<lparr>existing_popularity_metrics =
               Some [(''celeste'', [(''1'', 3)]), (''doom'', [(''2'', 4)])],
             existing_popularity_types = None, other_keys = False\<rparr>
            [(''celeste'', [(''5'', 8)])] [] = Inr out
         \<and> map_of (popularity_metrics out) ''doom'' = Some [(''2'', 4)]
         \<and> map_of (popularity_metrics out) ''celeste'' = Some [(''5'', 8)]"
proof -
  let ?ex = "\<lparr>existing_popularity_metrics =
                Some [(''celeste'', [(''1'', 3 :: real)]), (''doom'', [(''2'', 4)])],
              existing_popularity_types = None, other_keys = False\<rparr>"
  let ?fresh = "[(''celeste'', [(''5'', 8 :: real)])]"
  have a1: "distinct (keys (get_popularity_metrics ?ex))"
    by (simp add: keys_def get_popularity_metrics_def)
  have a2: "distinct (keys ?fresh)" by (simp add: keys_def)
  have a3: "map_of (get_popularity_metrics ?ex) ''doom'' = Some [(''2'', 4)]"
    by (simp add: get_popularity_metrics_def)
  have a3': "map_of (get_popularity_metrics ?ex) ''celeste'' = Some [(''1'', 3)]"
    by (simp add: get_popularity_metrics_def)
  have a4: "\<not> isdigit ''doom''" "\<not> isdigit ''celeste''" by (simp_all add: isdigit_def)
  from canonical_entry_survives [OF a1 a2 a3 a4(1), of "[(''77'', ''celeste'')]" "[]"]
    canonical_entry_survives [OF a1 a2 a3' a4(2), of "[(''77'', ''celeste'')]" "[]"]
  show ?thesis by auto
qed

lemma remap_remappable:
  assumes "\<forall>g \<in> snd ` set igdb_mapping. \<not> remappable igdb_mapping g"
    and "remap igdb_mapping key m k \<noteq> None"
    and "remappable igdb_mapping k"
  shows "m k \<noteq> None \<and> k \<noteq> key"
proof (cases "isdigit key \<and> map_of igdb_mapping key \<noteq> None")
  case True
  then obtain g where g: "map_of igdb_mapping key = Some g" by auto
  then have "(key, g) \<in> set igdb_mapping" by (rule map_of_SomeD)
  then have "g \<in> snd ` set igdb_mapping" by force
  with assms(1,3) have "k \<noteq> g" by auto
  with assms(2) True g show ?thesis
    by (auto simp: remap_def split: if_splits)
next
  case False
  then have "remap igdb_mapping key m = m"
    by (auto simp: remap_def)
  moreover from False assms(3) have "k \<noteq> key"
    by (auto simp: remappable_def contains_map_of)
  ultimately show ?thesis using assms(2) by simp
qed

lemma reconcile_keys_remappable:
  assumes "\<forall>g \<in> snd ` set igdb_mapping. \<not> remappable igdb_mapping g"
  shows "reconcile_keys igdb_mapping ks em = Inr s \<Longrightarrow> contains s k \<Longrightarrow>
           remappable igdb_mapping k \<Longrightarrow> contains em k \<and> k \<notin> set ks"
proof (induction ks arbitrary: em)
  case Nil
  then show ?case by simp
next
  case (Cons key rest)
  from Cons.prems(1) obtain em' where
    step: "reconcile_key igdb_mapping key em = Inr em'" and
    rest: "reconcile_keys igdb_mapping rest em' = Inr s"
    by (auto split: sum.splits)
  from Cons.IH [OF rest Cons.prems(2,3)] have k: "contains em' k" "k \<notin> set rest"
    by auto
  from k(1) have "remap igdb_mapping key (map_of em) k \<noteq> None"
    by (simp add: contains_map_of reconcile_key_map [OF step])
  from remap_remappable [OF assms this Cons.prems(3)] k(2) show ?case
    by (simp add: contains_map_of)
qed

lemma reconcile_keys_id:
  "(\<And>k. k \<in> set ks \<Longrightarrow> \<not> remappable igdb_mapping k) \<Longrightarrow>
     reconcile_keys igdb_mapping ks em = Inr em"
  by (induction ks) (simp_all add: reconcile_key_id)

lemma map_add_absorb: "(a ++ b) ++ b = a ++ b"
  by (simp add: map_add_def fun_eq_iff split: option.splits)

lemma map_add_absorb2: "a ++ (a ++ b) = a ++ b"
  by (simp add: map_add_def fun_eq_iff split: option.splits)

lemma map_add_same: "a ++ a = a"
  by (simp add: map_add_def fun_eq_iff split: option.splits)

text \<open>
  C5 as amended. When no entry name of the run is itself a purely numeric key of the
  external-identifier mapping, merging a second time, with the first output as the prior
  store and the same fetched inputs, gives the same two mappings as merging once.
\<close>

theorem merge_popularity_idempotent:
  assumes "distinct (keys (get_popularity_metrics existing))"
    and "distinct (keys (get_popularity_types existing))"
    and "distinct (keys metrics_by_game)"
    and "distinct (keys types_dict)"
    and "no_numeric_alias igdb_mapping metrics_by_game"
  shows "\<exists>out1 out2.
           merge_popularity igdb_mapping existing metrics_by_game types_dict = Inr out1
         \<and> merge_popularity igdb_mapping (persisted out1) metrics_by_game types_dict = Inr out2
         \<and> map_of (popularity_metrics out2) = map_of (popularity_metrics out1)
         \<and> map_of (popularity_types out2) = map_of (popularity_types out1)"
proof -
  from assms(5) have vals: "\<forall>g \<in> snd ` set igdb_mapping. \<not> remappable igdb_mapping g"
    and fetched: "\<And>k. k \<in> set (keys metrics_by_game) \<Longrightarrow> \<not> remappable igdb_mapping k"
    by (auto simp: no_numeric_alias_def list_all_iff)
  from reconcile_legacy_total [OF assms(1), of igdb_mapping] obtain s where
    s: "reconcile_legacy igdb_mapping (get_popularity_metrics existing) = Inr s" by auto
  define m1 where "m1 = (if truthy_data existing then dict_update s metrics_by_game
                          else metrics_by_game)"
  define t1 where "t1 = (if truthy_data existing
                          then dict_update types_dict (get_popularity_types existing)
                          else types_dict)"
  have out1: "merge_popularity igdb_mapping existing metrics_by_game types_dict =
                Inr \<lparr>popularity_types = t1, popularity_metrics = m1\<rparr>"
    by (simp add: m1_def t1_def merge_popularity_truthy [OF _ s] merge_popularity_falsy)
  have m1_map: "map_of m1 ++ map_of metrics_by_game = map_of m1"
    by (simp add: m1_def dict_update_map_of [OF assms(3)] map_add_absorb map_add_same)
  have t1_map: "map_of types_dict ++ map_of t1 = map_of t1"
    by (simp add: t1_def dict_update_map_of [OF assms(2)] map_add_absorb2 map_add_same)
  have t1_distinct: "distinct (keys t1)"
    by (simp add: t1_def assms(4) dict_update_distinct)
  have clean: "\<not> remappable igdb_mapping k" if "k \<in> set (keys m1)" for k
  proof
    assume r: "remappable igdb_mapping k"
    from that have c: "contains m1 k" by (simp add: contains_def)
    from r fetched have nf: "map_of metrics_by_game k = None"
      by (auto simp: keys_def map_of_eq_None_iff)
    show False
    proof (cases "truthy_data existing")
      case True
      with c nf have "contains s k"
        by (simp add: m1_def contains_map_of dict_update_map_of [OF assms(3)] map_add_def)
      from reconcile_keys_remappable [OF vals s [unfolded reconcile_legacy_def] this r]
      show False by (simp add: contains_def)
    next
      case False
      with c nf show False by (simp add: m1_def contains_map_of)
    qed
  qed
  let ?p = "persisted \<lparr>popularity_types = t1, popularity_metrics = m1\<rparr>"
  have tp: "truthy_data ?p" by (simp add: persisted_def truthy_data_def)
  have gm: "get_popularity_metrics ?p = m1" and gt: "get_popularity_types ?p = t1"
    by (simp_all add: persisted_def get_popularity_metrics_def get_popularity_types_def)
  have "reconcile_legacy igdb_mapping (get_popularity_metrics ?p) = Inr m1"
    unfolding gm reconcile_legacy_def by (rule reconcile_keys_id) (rule clean)
  from merge_popularity_truthy [OF tp this]
  have out2: "merge_popularity igdb_mapping ?p metrics_by_game types_dict =
                Inr \<lparr>popularity_types = dict_update types_dict t1,
                     popularity_metrics = dict_update m1 metrics_by_game\<rparr>"
    by (simp add: gt)
  show ?thesis
    using out1 out2 m1_map t1_map
    by (simp add: dict_update_map_of [OF assms(3)] dict_update_map_of [OF t1_distinct])
qed

theorem merge_popularity_idempotent_witness:
  "no_numeric_alias [(''77'', ''celeste'')] [(''doom'', [(''1'', 7 :: real)])]
   \<and> (\<exists>out1 out2.
          merge_popularity [(''77'', ''celeste'')]
            \<lparr>existing_popularity_metrics = Some [(''77'', [(''1'', 3)]), (''doom'', [(''2'', 4)])],
             existing_popularity_types = Some [(''1'', ''Visits'')], other_keys = False\<rparr>
            [(''doom'', [(''1'', 7)])] [(''1'', ''Page views''), (''2'', ''Want to Play'')]
            = Inr out1
        \<and> merge_popularity [(''77'', ''celeste'')] (persisted out1)
            [(''doom'', [(''1'', 7)])] [(''1'', ''Page views''), (''2'', ''Want to Play'')]
            = Inr out2
        \<and> map_of (popularity_metrics out2) = map_of (popularity_metrics out1)
        \<and> map_of (popularity_types out2) = map_of (popularity_types out1))"
proof -
  let ?ig = "[(''77'', ''celeste'')]"
  let ?ex = "\<lparr>existing_popularity_metrics =
                Some [(''77'', [(''1'', 3 :: real)]), (''doom'', [(''2'', 4)])],
              existing_popularity_types = Some [(''1'', ''Visits'')], other_keys = False\<rparr>"
  let ?fresh = "[(''doom'', [(''1'', 7 :: real)])]"
  let ?types = "[(''1'', ''Page views''), (''2'', ''Want to Play'')]"
  have a1: "distinct (keys (get_popularity_metrics ?ex))"
    by (simp add: keys_def get_popularity_metrics_def)
  have a2: "distinct (keys (get_popularity_types ?ex))"
    by (simp add: keys_def get_popularity_types_def)
  have a3: "distinct (keys ?fresh)" by (simp add: keys_def)
  have a4: "distinct (keys ?types)" by (simp add: keys_def)
  have a5: "no_numeric_alias ?ig ?fresh"
    by (simp add: no_numeric_alias_def remappable_def isdigit_def keys_def)
  from a5 merge_popularity_idempotent [OF a1 a2 a3 a4 a5] show ?thesis by blast
qed

text \<open>
  C5 as stated fails when an entry name is purely numeric and is also an external
  identifier of another entry. The port \<open>2048\<close> has the identifier 1234, the port \<open>x\<close> has
  the identifier 2048, the prior store holds metrics under the legacy key \<open>1234\<close>, and
  nothing is fetched. The first merge moves them to \<open>2048\<close>; the second merge, run on
  that output, takes \<open>2048\<close> for a legacy key and moves them to \<open>x\<close>.
\<close>

theorem merge_popularity_not_idempotent:
  "merge_popularity [(''1234'', ''2048''), (''2048'', ''x'')]
     \<lparr>existing_popularity_metrics = Some [(''1234'', [(''1'', 5)])],
      existing_popularity_types = Some [], other_keys = False\<rparr> [] []
     = Inr \<lparr>popularity_types = [], popularity_metrics = [(''2048'', [(''1'', 5)])]\<rparr>
   \<and> merge_popularity [(''1234'', ''2048''), (''2048'', ''x'')]
       (persisted \<lparr>popularity_types = [], popularity_metrics = [(''2048'', [(''1'', 5)])]\<rparr>) [] []
     = Inr \<lparr>popularity_types = [], popularity_metrics = [(''x'', [(''1'', 5)])]\<rparr>
   \<and> map_of [(''x'', [(''1'', 5 :: real)])] ''x'' \<noteq> map_of [(''2048'', [(''1'', 5)])] ''x''"
  by (simp add: merge_popularity_def truthy_data_def persisted_def get_popularity_metrics_def
        get_popularity_types_def reconcile_legacy_def keys_def reconcile_key_def isdigit_def
        contains_def dict_update_def)

text \<open>
  C6. The merged type mapping has every key of the fetched and of the prior type-name
  mapping; a key of the prior mapping keeps its prior name, also when a name was fetched
  for it, and every other key has its fetched name.
\<close>

theorem type_names_prior_wins:
  assumes "distinct (keys (get_popularity_metrics existing))"
    and "distinct (keys (get_popularity_types existing))"
  shows "\<exists>out. merge_popularity igdb_mapping existing metrics_by_game types_dict = Inr out
           \<and> set (keys types_dict) \<union> set (keys (get_popularity_types existing))
               \<subseteq> set (keys (popularity_types out))
           \<and> (\<forall>k name. map_of (get_popularity_types existing) k = Some name \<longrightarrow>
                 map_of (popularity_types out) k = Some name)
           \<and> (\<forall>k. \<not> contains (get_popularity_types existing) k \<longrightarrow>
                 map_of (popularity_types out) k = map_of types_dict k)"
proof -
  from reconcile_legacy_total [OF assms(1), of igdb_mapping] obtain s where
    s: "reconcile_legacy igdb_mapping (get_popularity_metrics existing) = Inr s" by auto
  define t1 where "t1 = (if truthy_data existing
                          then dict_update types_dict (get_popularity_types existing)
                          else types_dict)"
  define m1 where "m1 = (if truthy_data existing then dict_update s metrics_by_game
                          else metrics_by_game)"
  have out: "merge_popularity igdb_mapping existing metrics_by_game types_dict =
               Inr \<lparr>popularity_types = t1, popularity_metrics = m1\<rparr>"
    by (simp add: m1_def t1_def merge_popularity_truthy [OF _ s] merge_popularity_falsy)
  have t1_map: "map_of t1 = map_of types_dict ++ map_of (get_popularity_types existing)"
    by (auto simp: t1_def dict_update_map_of [OF assms(2)] falsy_gets)
  have dom_keys: "set (keys d) = dom (map_of d)" for d :: "(string, string) dict"
    by (simp add: keys_def dom_map_of_conv_image_fst)
  have sub: "set (keys types_dict) \<union> set (keys (get_popularity_types existing))
               \<subseteq> set (keys t1)"
    by (auto simp: dom_keys t1_map)
  have prior: "map_of t1 k = Some name"
    if "map_of (get_popularity_types existing) k = Some name" for k name
    using that by (simp add: t1_map map_add_def)
  have fetched: "map_of t1 k = map_of types_dict k"
    if "\<not> contains (get_popularity_types existing) k" for k
    using that by (simp add: t1_map map_add_def contains_map_of)
  from out sub prior fetched show ?thesis by simp
qed

theorem type_names_prior_wins_witness:
  "\<exists>out. merge_popularity [] 
            \<lparr>existing_popularity_metrics = Some [],
             existing_popularity_types = Some [(''1'', ''Visits''), (''9'', ''Sales'')],
             other_keys = False\<rparr>
            [] [(''1'', ''Page views''), (''2'', ''Want to Play'')] = Inr out
         \<and> map_of (popularity_types out) ''1'' = Some ''Visits''
         \<and> map_of (popularity_types out) ''2'' = Some ''Want to Play''
         \<and> map_of (popularity_types out) ''9'' = Some ''Sales''"
proof -
  let ?ex = "\<lparr>existing_popularity_metrics = Some [],
              existing_popularity_types = Some [(''1'', ''Visits''), (''9'', ''Sales'')],
              other_keys = False\<rparr>"
  let ?types = "[(''1'', ''Page views''), (''2'', ''Want to Play'')]"
  have a1: "distinct (keys (get_popularity_metrics ?ex))"
    by (simp add: keys_def get_popularity_metrics_def)
  have a2: "distinct (keys (get_popularity_types ?ex))"
    by (simp add: keys_def get_popularity_types_def)
  have g: "get_popularity_types ?ex = [(''1'', ''Visits''), (''9'', ''Sales'')]"
    by (simp add: get_popularity_types_def)
  from type_names_prior_wins [OF a1 a2, of "[]" "[]" ?types]
  obtain out where o: "merge_popularity [] ?ex [] ?types = Inr out"
    and p: "\<And>k name. map_of (get_popularity_types ?ex) k = Some name \<Longrightarrow>
              map_of (popularity_types out) k = Some name"
    and f: "\<And>k. \<not> contains (get_popularity_types ?ex) k \<Longrightarrow>
              map_of (popularity_types out) k = map_of ?types k"
    by blast
  have "map_of (popularity_types out) ''1'' = Some ''Visits''"
    by (rule p) (simp add: g)
  moreover have "map_of (popularity_types out) ''9'' = Some ''Sales''"
    by (rule p) (simp add: g)
  moreover have "map_of (popularity_types out) ''2'' = Some ''Want to Play''"
    using f [of "''2''"] by (simp add: g contains_def keys_def)
  ultimately show ?thesis using o by blast
qed

section \<open>Properties of the Ranker filter\<close>

lemma port_loop_filter:
  "port_loop only_rtr genre_filter ports port_data =
     port_data @
     map (\<lambda>(port_name, info). port_entry port_name info)
       (filter (\<lambda>(port_name, info).
                  (only_rtr \<longrightarrow> get_rtr info) \<and>
                  (case genre_filter of
                     None \<Rightarrow> True
                   | Some g \<Rightarrow> g \<noteq> [] \<longrightarrow> lower g \<in> set (map lower (get_genres info))))
          ports)"
proof (induction ports arbitrary: port_data)
  case Nil
  show ?case by simp
next
  case (Cons p ports)
  obtain port_name info where p: "p = (port_name, info)" by (cases p)
  let ?keep = "(only_rtr \<longrightarrow> get_rtr info) \<and>
                  (case genre_filter of
                     None \<Rightarrow> True
                   | Some g \<Rightarrow> g \<noteq> [] \<longrightarrow> lower g \<in> set (map lower (get_genres info)))"
  have step: "port_loop only_rtr genre_filter (p # ports) port_data =
                port_loop only_rtr genre_filter ports
                  (if ?keep then port_data @ [port_entry port_name info] else port_data)"
    unfolding p by (cases genre_filter) auto
  show ?case
    unfolding step Cons.IH by (simp add: p)
qed

text \<open>
  C7. The entries returned by \<open>get_port_data\<close> are, in catalog order, those that pass
  both tests: the ready-to-run test when the flag is set, and membership of the requested
  genre among the entry's genres, compared in lower case, when a genre is given (a
  non-empty string). Among A (ready to run, puzzle), B (not ready to run, puzzle) and
  C (ready to run, arcade), the filter for ready-to-run puzzle entries returns A alone.
\<close>

theorem get_port_data_conjunctive:
  "get_port_data (Some ports) only_rtr genre_filter =
     map (\<lambda>(port_name, info). port_entry port_name info)
       (filter (\<lambda>(port_name, info).
                  (only_rtr \<longrightarrow> get_rtr info) \<and>
                  (case genre_filter of
                     None \<Rightarrow> True
                   | Some g \<Rightarrow> g \<noteq> [] \<longrightarrow> lower g \<in> set (map lower (get_genres info))))
          ports)
   \<and> map name
        (get_port_data
           (Some
             [(''A'', \<lparr>attr = Some \<lparr>attr_title = None, attr_rtr = Some True,
                                  attr_genres = Some [''puzzle''], attr_availability = None\<rparr>\<rparr>),
              (''B'', \<lparr>attr = Some \<lparr>attr_title = None, attr_rtr = Some False,
                                  attr_genres = Some [''puzzle''], attr_availability = None\<rparr>\<rparr>),
              (''C'', \<lparr>attr = Some \<lparr>attr_title = None, attr_rtr = Some True,
                                  attr_genres = Some [''arcade''], attr_availability = None\<rparr>\<rparr>)])
           True (Some ''puzzle''))
      = [''A'']"
proof -
  have ex: "map name
        (get_port_data
           (Some
             [(''A'', \<lparr>attr = Some \<lparr>attr_title = None, attr_rtr = Some True,
                                  attr_genres = Some [''puzzle''], attr_availability = None\<rparr>\<rparr>),
              (''B'', \<lparr>attr = Some \<lparr>attr_title = None, attr_rtr = Some False,
                                  attr_genres = Some [''puzzle''], attr_availability = None\<rparr>\<rparr>),
              (''C'', \<lparr>attr = Some \<lparr>attr_title = None, attr_rtr = Some True,
                                  attr_genres = Some [''arcade''], attr_availability = None\<rparr>\<rparr>)])
           True (Some ''puzzle''))
      = [''A'']"
    by (simp add: get_port_data_def get_rtr_def get_genres_def lower_def lower_char_def
          port_entry_def Let_def)
  show ?thesis
    using ex by (simp add: get_port_data_def port_loop_filter)
qed

theorem get_port_data_conjunctive_witness:
  "get_port_data
     (Some
       [(''celeste.zip'', \<lparr>attr = Some \<lparr>attr_title = Some ''Celeste'', attr_rtr = Some True,
                           attr_genres = Some [''Platformer'', ''Puzzle''],
                           attr_availability = None\<rparr>\<rparr>),
        (''doom.zip'', \<lparr>attr = Some \<lparr>attr_title = None, attr_rtr = None,
                           attr_genres = Some [''puzzle''], attr_availability = None\<rparr>\<rparr>),
        (''nothing.zip'', \<lparr>attr = None\<rparr>)])
     True (Some ''PUZZLE'')
   = [\<lparr>name = ''celeste'', title = ''Celeste'', rtr = True,
       genres = [''Platformer'', ''Puzzle''], availability = None\<rparr>]"
proof -
  let ?celeste = "(''celeste.zip'', \<lparr>attr = Some \<lparr>attr_title = Some ''Celeste'',
                     attr_rtr = Some True, attr_genres = Some [''Platformer'', ''Puzzle''],
                     attr_availability = None\<rparr>\<rparr>)"
  let ?ports = "[?celeste,
        (''doom.zip'', \<lparr>attr = Some \<lparr>attr_title = None, attr_rtr = None,
                           attr_genres = Some [''puzzle''], attr_availability = None\<rparr>\<rparr>),
        (''nothing.zip'', \<lparr>attr = None\<rparr>)]"
  have kept: "filter (\<lambda>(port_name, info).
                  (True \<longrightarrow> get_rtr info) \<and>
                  (case Some ''PUZZLE'' of
                     None \<Rightarrow> True
                   | Some g \<Rightarrow> g \<noteq> [] \<longrightarrow> lower g \<in> set (map lower (get_genres info))))
          ?ports = [?celeste]"
    by code_simp
  have "get_port_data (Some ?ports) True (Some ''PUZZLE'') =
          map (\<lambda>(port_name, info). port_entry port_name info) [?celeste]"
    using get_port_data_conjunctive [of ?ports True "Some ''PUZZLE''"]
    unfolding kept by (rule conjunct1)
  then show ?thesis
    by (simp add: port_entry_def get_title_def get_rtr_def get_genres_def
          get_availability_def Let_def)
qed

section \<open>Properties of the ID Extractor\<close>

lemma update_fields_result:
  "distinct (keys port_ids) \<Longrightarrow> update_fields port_ids (entry, updated) = (entry', updated') \<Longrightarrow>
     map_of entry' = map_of entry ++ map_of port_ids \<and>
     updated' = updated + length (written_fields entry port_ids)"
proof (induction port_ids arbitrary: entry updated)
  case Nil
  then show ?case by (simp add: written_fields_def)
next
  case (Cons fv rest)
  obtain field v where fv: "fv = (field, v)" by (cases fv)
  from Cons.prems(1) have d: "distinct (keys rest)" and nf: "map_of rest field = None"
    by (auto simp: fv keys_def map_of_eq_None_iff)
  have others: "g \<noteq> field" if "(g, w) \<in> set rest" for g w
    using that nf by (force simp: map_of_eq_None_iff)
  show ?case
  proof (cases "map_of entry field = Some v")
    case True
    with Cons.prems(2) have "update_fields rest (entry, updated) = (entry', updated')"
      by (simp add: fv contains_map_of)
    from Cons.IH [OF d this] True nf show ?thesis
      by (auto simp: fv written_fields_def map_add_def fun_eq_iff split: option.splits)
  next
    case False
    with Cons.prems(2) have
      "update_fields rest (AList.update field v entry, Suc updated) = (entry', updated')"
      by (auto simp: fv contains_map_of)
    from Cons.IH [OF d this] have
      m: "map_of entry' = map_of (AList.update field v entry) ++ map_of rest" and
      u: "updated' = Suc updated + length (written_fields (AList.update field v entry) rest)"
      by auto
    have "written_fields (AList.update field v entry) rest = written_fields entry rest"
      unfolding written_fields_def
      by (rule filter_cong) (auto simp: AList.update_conv' dest: others)
    with u False have "updated' = updated + length (written_fields entry (fv # rest))"
      by (simp add: fv written_fields_def)
    moreover from m nf have "map_of entry' = map_of entry ++ map_of (fv # rest)"
      by (auto simp: fv AList.update_conv' map_add_def fun_eq_iff split: option.splits)
    ultimately show ?thesis by blast
  qed
qed

lemma merge_entry_other:
  "p \<noteq> port_name \<Longrightarrow>
     map_of (merged_game_ids (merge_entry (port_name, port_ids) st)) p =
       map_of (merged_game_ids st) p"
  by (auto simp: merge_entry_def AList.update_conv' split: option.splits prod.splits)

lemma merge_entry_new:
  "map_of (merged_game_ids st) port_name = None \<Longrightarrow>
     map_of (merged_game_ids (merge_entry (port_name, port_ids) st)) port_name = Some port_ids \<and>
     new_entries (merge_entry (port_name, port_ids) st) = Suc (new_entries st) \<and>
     updated_entries (merge_entry (port_name, port_ids) st) = updated_entries st"
  by (simp add: merge_entry_def AList.update_conv')

lemma merge_entry_present:
  assumes "distinct (keys port_ids)" and "map_of (merged_game_ids st) port_name = Some entry"
  shows "\<exists>entry'.
           map_of (merged_game_ids (merge_entry (port_name, port_ids) st)) port_name = Some entry'
         \<and> map_of entry' = map_of entry ++ map_of port_ids
         \<and> new_entries (merge_entry (port_name, port_ids) st) = new_entries st
         \<and> updated_entries (merge_entry (port_name, port_ids) st) =
             updated_entries st + length (written_fields entry port_ids)"
proof -
  obtain entry' updated' where
    r: "update_fields port_ids (entry, updated_entries st) = (entry', updated')"
    by (cases "update_fields port_ids (entry, updated_entries st)")
  from update_fields_result [OF assms(1) r] show ?thesis
    by (simp add: merge_entry_def assms(2) r AList.update_conv')
qed

lemma merge_loop_other:
  "p \<notin> set (keys new_game_ids) \<Longrightarrow>
     map_of (merged_game_ids (merge_loop new_game_ids st)) p = map_of (merged_game_ids st) p"
proof (induction new_game_ids arbitrary: st)
  case Nil
  show ?case by simp
next
  case (Cons item rest)
  obtain port_name port_ids where item: "item = (port_name, port_ids)" by (cases item)
  from Cons.prems have "p \<noteq> port_name" "p \<notin> set (keys rest)"
    by (auto simp: item keys_def)
  then show ?case
    by (simp add: Cons.IH item merge_entry_other)
qed

lemma merge_loop_entry:
  assumes "distinct (keys new_game_ids)"
    and "list_all (\<lambda>(port_name, port_ids). distinct (keys port_ids)) new_game_ids"
    and "(port_name, port_ids) \<in> set new_game_ids"
  shows "case map_of (merged_game_ids st) port_name of
           None \<Rightarrow> map_of (merged_game_ids (merge_loop new_game_ids st)) port_name = Some port_ids
         | Some entry \<Rightarrow>
             (\<exists>entry'. map_of (merged_game_ids (merge_loop new_game_ids st)) port_name = Some entry'
                      \<and> map_of entry' = map_of entry ++ map_of port_ids)"
  using assms
proof (induction new_game_ids arbitrary: st)
  case Nil
  then show ?case by simp
next
  case (Cons item rest)
  obtain q ids where item: "item = (q, ids)" by (cases item)
  from Cons.prems(1) have d: "distinct (keys rest)" and nq: "q \<notin> set (keys rest)"
    by (auto simp: item keys_def)
  from Cons.prems(2) have wf: "list_all (\<lambda>(port_name, port_ids). distinct (keys port_ids)) rest"
    and wq: "distinct (keys ids)"
    by (auto simp: item)
  show ?case
  proof (cases "(port_name, port_ids) \<in> set rest")
    case True
    then have "port_name \<in> set (keys rest)" by (force simp: keys_def)
    with nq have "port_name \<noteq> q" by auto
    then have "map_of (merged_game_ids (merge_entry item st)) port_name =
                 map_of (merged_game_ids st) port_name"
      by (simp add: item merge_entry_other)
    with Cons.IH [OF d wf True, of "merge_entry item st"] show ?thesis
      by (auto split: option.splits)
  next
    case False
    with Cons.prems(3) have eq: "q = port_name" "ids = port_ids" by (auto simp: item)
    have keep: "map_of (merged_game_ids (merge_loop rest (merge_entry item st))) port_name =
                  map_of (merged_game_ids (merge_entry item st)) port_name"
      using nq by (simp add: merge_loop_other eq)
    show ?thesis
    proof (cases "map_of (merged_game_ids st) port_name")
      case None
      with merge_entry_new [of st port_name port_ids] keep show ?thesis
        by (simp add: item eq)
    next
      case (Some entry)
      with merge_entry_present [OF _ Some, of port_ids] wq keep show ?thesis
        by (auto simp: item eq)
    qed
  qed
qed

lemma merge_loop_counts:
  assumes "distinct (keys new_game_ids)"
    and "list_all (\<lambda>(port_name, port_ids). distinct (keys port_ids)) new_game_ids"
  shows "new_entries (merge_loop new_game_ids st) =
           new_entries st +
           length (filter (\<lambda>(p, ids). map_of (merged_game_ids st) p = None) new_game_ids)
       \<and> updated_entries (merge_loop new_game_ids st) =
           updated_entries st +
           (\<Sum>(p, ids) \<leftarrow> new_game_ids.
              case map_of (merged_game_ids st) p of
                None \<Rightarrow> 0
              | Some entry \<Rightarrow> length (written_fields entry ids))"
  using assms
proof (induction new_game_ids arbitrary: st)
  case Nil
  show ?case by simp
next
  case (Cons item rest)
  obtain q ids where item: "item = (q, ids)" by (cases item)
  let ?st = "merge_entry item st"
  from Cons.prems(1) have d: "distinct (keys rest)" and nq: "q \<notin> set (keys rest)"
    by (auto simp: item keys_def)
  from Cons.prems(2) have wf: "list_all (\<lambda>(port_name, port_ids). distinct (keys port_ids)) rest"
    and wq: "distinct (keys ids)"
    by (auto simp: item)
  have same: "map_of (merged_game_ids ?st) p = map_of (merged_game_ids st) p"
    if "(p, i) \<in> set rest" for p i
  proof -
    from that have "p \<in> set (keys rest)" by (force simp: keys_def)
    with nq have "p \<noteq> q" by auto
    then show ?thesis by (simp add: item merge_entry_other)
  qed
  have f: "filter (\<lambda>(p, ids). map_of (merged_game_ids ?st) p = None) rest =
           filter (\<lambda>(p, ids). map_of (merged_game_ids st) p = None) rest"
    by (rule filter_cong) (auto simp: same)
  have g: "map (\<lambda>(p, ids). case map_of (merged_game_ids ?st) p of
                              None \<Rightarrow> 0 | Some entry \<Rightarrow> length (written_fields entry ids)) rest =
           map (\<lambda>(p, ids). case map_of (merged_game_ids st) p of
                              None \<Rightarrow> 0 | Some entry \<Rightarrow> length (written_fields entry ids)) rest"
    by (rule map_cong) (auto simp: same)
  note IH = Cons.IH [OF d wf, of ?st, unfolded f g]
  show ?case
  proof (cases "map_of (merged_game_ids st) q")
    case None
    with merge_entry_new [of st q ids] IH show ?thesis
      by (simp add: item)
  next
    case (Some entry)
    with merge_entry_present [OF wq Some] IH show ?thesis
      by (auto simp: item)
  qed
qed

text \<open>
  C8. The merge into the persisted index removes nothing: every field of every entry of
  the prior index is a field of that entry in the merged index. An entry that the prior
  index lacks is added with exactly its extracted fields; an entry that it has holds its
  prior fields overlaid with the extracted ones, and an entry that was not extracted is
  unchanged. A field is written only when its extracted value differs from the prior one
  or the field was missing: \<open>updated_entries\<close> counts exactly those fields, and
  \<open>new_entries\<close> the added entries.
\<close>

theorem merge_game_ids_never_removes:
  assumes "distinct (keys new_game_ids)"
    and "list_all (\<lambda>(port_name, port_ids). distinct (keys port_ids)) new_game_ids"
  shows
    "(\<forall>p entry field.
        map_of existing_game_ids p = Some entry \<and> contains entry field \<longrightarrow>
        (\<exists>entry'. map_of (merged_game_ids (merge_game_ids existing_game_ids new_game_ids)) p
                     = Some entry' \<and> contains entry' field))
   \<and> (\<forall>p port_ids.
        map_of new_game_ids p = Some port_ids \<and> map_of existing_game_ids p = None \<longrightarrow>
        map_of (merged_game_ids (merge_game_ids existing_game_ids new_game_ids)) p
          = Some port_ids)
   \<and> (\<forall>p port_ids entry.
        map_of new_game_ids p = Some port_ids \<and> map_of existing_game_ids p = Some entry \<longrightarrow>
        (\<exists>entry'. map_of (merged_game_ids (merge_game_ids existing_game_ids new_game_ids)) p
                     = Some entry'
                 \<and> map_of entry' = map_of entry ++ map_of port_ids))
   \<and> (\<forall>p. map_of new_game_ids p = None \<longrightarrow>
        map_of (merged_game_ids (merge_game_ids existing_game_ids new_game_ids)) p
          = map_of existing_game_ids p)
   \<and> new_entries (merge_game_ids existing_game_ids new_game_ids) =
        length (filter (\<lambda>(p, port_ids). map_of existing_game_ids p = None) new_game_ids)
   \<and> updated_entries (merge_game_ids existing_game_ids new_game_ids) =
        (\<Sum>(p, port_ids) \<leftarrow> new_game_ids.
           case map_of existing_game_ids p of
             None \<Rightarrow> 0
           | Some entry \<Rightarrow> length (written_fields entry port_ids))"
proof -
  let ?st = "\<lparr>merged_game_ids = existing_game_ids, new_entries = 0, updated_entries = 0\<rparr>"
  let ?M = "merged_game_ids (merge_game_ids existing_game_ids new_game_ids)"
  have added: "map_of ?M p = Some port_ids"
    if "map_of new_game_ids p = Some port_ids" "map_of existing_game_ids p = None"
    for p port_ids
  proof -
    from that(1) have "(p, port_ids) \<in> set new_game_ids" by (rule map_of_SomeD)
    from merge_loop_entry [OF assms this, of ?st] that(2) show ?thesis
      by (simp add: merge_game_ids_def)
  qed
  have updated: "\<exists>entry'. map_of ?M p = Some entry'
                   \<and> map_of entry' = map_of entry ++ map_of port_ids"
    if "map_of new_game_ids p = Some port_ids" "map_of existing_game_ids p = Some entry"
    for p port_ids entry
  proof -
    from that(1) have "(p, port_ids) \<in> set new_game_ids" by (rule map_of_SomeD)
    from merge_loop_entry [OF assms this, of ?st] that(2) show ?thesis
      by (simp add: merge_game_ids_def)
  qed
  have untouched: "map_of ?M p = map_of existing_game_ids p"
    if "map_of new_game_ids p = None" for p
  proof -
    from that have "p \<notin> set (keys new_game_ids)"
      by (simp add: keys_def map_of_eq_None_iff)
    then show ?thesis by (simp add: merge_game_ids_def merge_loop_other)
  qed
  have kept: "\<exists>entry'. map_of ?M p = Some entry' \<and> contains entry' field"
    if "map_of existing_game_ids p = Some entry" "contains entry field" for p entry field
  proof (cases "map_of new_game_ids p")
    case None
    with that show ?thesis by (simp add: untouched)
  next
    case (Some port_ids)
    from updated [OF Some that(1)] obtain entry' where
      "map_of ?M p = Some entry'" "map_of entry' = map_of entry ++ map_of port_ids"
      by blast
    with that(2) show ?thesis
      by (auto simp: contains_map_of map_add_def split: option.splits)
  qed
  from merge_loop_counts [OF assms, of ?st]
  have counts:
    "new_entries (merge_game_ids existing_game_ids new_game_ids) =
        length (filter (\<lambda>(p, port_ids). map_of existing_game_ids p = None) new_game_ids)"
    "updated_entries (merge_game_ids existing_game_ids new_game_ids) =
        (\<Sum>(p, port_ids) \<leftarrow> new_game_ids.
           case map_of existing_game_ids p of
             None \<Rightarrow> 0
           | Some entry \<Rightarrow> length (written_fields entry port_ids))"
    by (simp_all add: merge_game_ids_def)
  from kept added updated untouched counts show ?thesis by blast
qed

theorem merge_game_ids_never_removes_witness:
  "new_entries
     (merge_game_ids
        [(''doom'', [(''igdb_id'', ''379''), (''note'', ''kept'')]), (''quake'', [(''steam_id'', ''2310'')])]
        [(''doom'', [(''igdb_id'', ''379''), (''steam_id'', ''2280'')]),
         (''celeste'', [(''igdb_id'', ''26226'')])]) = 1
   \<and> updated_entries
     (merge_game_ids
        [(''doom'', [(''igdb_id'', ''379''), (''note'', ''kept'')]), (''quake'', [(''steam_id'', ''2310'')])]
        [(''doom'', [(''igdb_id'', ''379''), (''steam_id'', ''2280'')]),
         (''celeste'', [(''igdb_id'', ''26226'')])]) = 1
   \<and> map_of (merged_game_ids
     (merge_game_ids
        [(''doom'', [(''igdb_id'', ''379''), (''note'', ''kept'')]), (''quake'', [(''steam_id'', ''2310'')])]
        [(''doom'', [(''igdb_id'', ''379''), (''steam_id'', ''2280'')]),
         (''celeste'', [(''igdb_id'', ''26226'')])])) ''celeste'' = Some [(''igdb_id'', ''26226'')]
   \<and> map_of (merged_game_ids
     (merge_game_ids
        [(''doom'', [(''igdb_id'', ''379''), (''note'', ''kept'')]), (''quake'', [(''steam_id'', ''2310'')])]
        [(''doom'', [(''igdb_id'', ''379''), (''steam_id'', ''2280'')]),
         (''celeste'', [(''igdb_id'', ''26226'')])])) ''quake'' = Some [(''steam_id'', ''2310'')]"
proof -
  let ?ex = "[(''doom'', [(''igdb_id'', ''379''), (''note'', ''kept'')]),
              (''quake'', [(''steam_id'', ''2310'')])]"
  let ?new = "[(''doom'', [(''igdb_id'', ''379''), (''steam_id'', ''2280'')]),
               (''celeste'', [(''igdb_id'', ''26226'')])]"
  have a1: "distinct (keys ?new)" by (simp add: keys_def)
  have a2: "list_all (\<lambda>(port_name, port_ids). distinct (keys port_ids)) ?new"
    by (simp add: keys_def)
  note t = merge_game_ids_never_removes [OF a1 a2, of ?ex]
  from t have "new_entries (merge_game_ids ?ex ?new) =
                 length (filter (\<lambda>(p, port_ids). map_of ?ex p = None) ?new)"
    by blast
  then have n: "new_entries (merge_game_ids ?ex ?new) = 1" by simp
  from t have "updated_entries (merge_game_ids ?ex ?new) =
        (\<Sum>(p, port_ids) \<leftarrow> ?new.
           case map_of ?ex p of
             None \<Rightarrow> 0
           | Some entry \<Rightarrow> length (written_fields entry port_ids))"
    by blast
  then have u: "updated_entries (merge_game_ids ?ex ?new) = 1"
    by (simp add: written_fields_def)
  from t have "\<forall>p port_ids.
        map_of ?new p = Some port_ids \<and> map_of ?ex p = None \<longrightarrow>
        map_of (merged_game_ids (merge_game_ids ?ex ?new)) p = Some port_ids"
    by blast
  then have c: "map_of (merged_game_ids (merge_game_ids ?ex ?new)) ''celeste''
                  = Some [(''igdb_id'', ''26226'')]"
    by simp
  from t have "\<forall>p. map_of ?new p = None \<longrightarrow>
        map_of (merged_game_ids (merge_game_ids ?ex ?new)) p = map_of ?ex p"
    by blast
  then have q: "map_of (merged_game_ids (merge_game_ids ?ex ?new)) ''quake''
                  = Some [(''steam_id'', ''2310'')]"
    by simp
  from n u c q show ?thesis by blast
qed

lemma filter_fields_map_of:
  "map_of (filter (\<lambda>(k, v). k \<notin> set removed) a) k =
     (if k \<in> set removed then None else map_of a k)"
  by (induction a) auto

lemma without_fields_Nil: "without_fields [] port_data = port_data"
proof -
  have "map_option (filter (\<lambda>(k, v). k \<notin> set [])) x = x" for x :: "(string \<times> 'a) list option"
    by (cases x) (simp_all add: split_def)
  then show ?thesis by (simp add: without_fields_def)
qed

lemma without_fields_delete:
  "without_fields rest
     (port_data\<lparr>attr_object := map_option (AList.delete field) (attr_object port_data)\<rparr>) =
   without_fields (field # rest) port_data"
proof -
  have "filter (\<lambda>(k, v). k \<notin> set rest) (AList.delete field a) =
        filter (\<lambda>(k, v). k \<notin> set (field # rest)) a" for a :: "(string \<times> 'a) list"
    by (induction a) auto
  then show ?thesis
    by (simp add: without_fields_def option.map_comp comp_def)
qed

lemma without_fields_absent:
  assumes "\<not> contains (get_attr port_data) field"
  shows "without_fields rest port_data = without_fields (field # rest) port_data"
proof -
  have "filter (\<lambda>(k, v). k \<notin> set rest) a = filter (\<lambda>(k, v). k \<notin> set (field # rest)) a"
    if "\<not> contains a field" for a :: "(string \<times> 'a) list"
    using that by (induction a) (auto simp: contains_def keys_def)
  with assms show ?thesis
    by (cases "attr_object port_data") (simp_all add: without_fields_def get_attr_def)
qed

lemma remove_fields_result:
  "remove_fields removed (port_data, modified) =
     (without_fields removed port_data,
      modified \<or> (\<exists>field \<in> set removed. contains (get_attr port_data) field))"
proof (induction removed arbitrary: port_data modified)
  case Nil
  show ?case by (simp add: without_fields_Nil)
next
  case (Cons field rest)
  show ?case
  proof (cases "contains (get_attr port_data) field")
    case True
    then show ?thesis
      by (simp add: Cons.IH without_fields_delete)
  next
    case False
    then show ?thesis
      by (simp add: Cons.IH without_fields_absent [OF False, symmetric])
  qed
qed

lemma process_port_result:
  assumes "map_of port_dir ''port.json'' = Some content"
    and "json_load content = Some port_data"
  shows "process_port json_load json_dump port_dir =
           (if \<exists>field \<in> set id_fields. contains (get_attr port_data) field
            then AList.update ''port.json'' (json_dump (without_fields id_fields port_data))
                   (AList.update ''port.json.bak'' content
                      (AList.delete ''port.json'' port_dir))
            else port_dir)"
  by (simp add: process_port_def assms remove_fields_result)

lemma remove_loop_map:
  "distinct names \<Longrightarrow>
     map_of (remove_loop json_load json_dump names ports) p =
       (if p \<in> set names
        then (case map_of ports p of
                Some (Dir port_dir) \<Rightarrow> Some (Dir (process_port json_load json_dump port_dir))
              | other \<Rightarrow> other)
        else map_of ports p)"
proof (induction names arbitrary: ports)
  case Nil
  show ?case by simp
next
  case (Cons port_name rest)
  from Cons.prems have d: "distinct rest" and n: "port_name \<notin> set rest" by auto
  show ?case
  proof (cases "\<exists>port_dir. map_of ports port_name = Some (Dir port_dir)")
    case True
    then obtain port_dir where pd: "map_of ports port_name = Some (Dir port_dir)" by blast
    show ?thesis
      using n by (auto simp: pd Cons.IH [OF d] AList.update_conv' split: option.splits node.splits)
  next
    case False
    then have "remove_loop json_load json_dump (port_name # rest) ports =
                 remove_loop json_load json_dump rest ports"
      by (auto split: option.splits node.splits)
    with False n show ?thesis
      by (auto simp: Cons.IH [OF d] split: option.splits node.splits)
  qed
qed

text \<open>
  C9. Take the \<open>port.json\<close> of an entry directory that the removal operation loads. If
  one of the removal fields is in its \<open>attr\<close> object, then afterwards \<open>port.json.bak\<close>
  holds the content \<open>port.json\<close> had, \<open>port.json\<close> holds the dump of the loaded data
  without those fields (no removal field is left, every other field of \<open>attr\<close> and every
  other member is as before), and the other files of the directory are as before. If no
  removal field is there, the directory is as before: no backup, no rewrite.
\<close>

theorem remove_ids_backs_up:
  assumes "distinct (keys ports)"
    and "map_of ports port_name = Some (Dir port_dir)"
    and "map_of port_dir ''port.json'' = Some content"
    and "json_load content = Some port_data"
  shows "\<exists>port_dir'.
           map_of (remove_ids_from_ports json_load json_dump ports) port_name = Some (Dir port_dir')
         \<and> (if \<exists>field \<in> set id_fields. contains (get_attr port_data) field
             then map_of port_dir' ''port.json.bak'' = Some content
                \<and> map_of port_dir' ''port.json'' =
                    Some (json_dump (without_fields id_fields port_data))
                \<and> (\<forall>f. f \<noteq> ''port.json'' \<and> f \<noteq> ''port.json.bak'' \<longrightarrow>
                      map_of port_dir' f = map_of port_dir f)
             else port_dir' = port_dir)
         \<and> other_members (without_fields id_fields port_data) = other_members port_data
         \<and> (\<forall>k. map_of (get_attr (without_fields id_fields port_data)) k =
                  (if k \<in> set id_fields then None else map_of (get_attr port_data) k))"
proof -
  define port_dir' where "port_dir' = process_port json_load json_dump port_dir"
  have ppr: "process_port json_load json_dump port_dir =
           (if \<exists>field \<in> set id_fields. contains (get_attr port_data) field
            then AList.update ''port.json'' (json_dump (without_fields id_fields port_data))
                   (AList.update ''port.json.bak'' content
                      (AList.delete ''port.json'' port_dir))
            else port_dir)"
    using assms(3,4) by (rule process_port_result)
  from assms(2) have "port_name \<in> set (keys ports)"
    by (auto simp: keys_def dest: map_of_SomeD intro: rev_image_eqI)
  with assms(1,2) have res:
    "map_of (remove_ids_from_ports json_load json_dump ports) port_name = Some (Dir port_dir')"
    by (simp add: remove_ids_from_ports_def remove_loop_map port_dir'_def)
  have om: "other_members (without_fields id_fields port_data) = other_members port_data"
    by (simp add: without_fields_def)
  have at: "\<forall>k. map_of (get_attr (without_fields id_fields port_data)) k =
                  (if k \<in> set id_fields then None else map_of (get_attr port_data) k)"
    by (cases "attr_object port_data") (simp_all add: without_fields_def get_attr_def filter_fields_map_of)
  have files:
    "if \<exists>field \<in> set id_fields. contains (get_attr port_data) field
     then map_of port_dir' ''port.json.bak'' = Some content
        \<and> map_of port_dir' ''port.json'' =
            Some (json_dump (without_fields id_fields port_data))
        \<and> (\<forall>f. f \<noteq> ''port.json'' \<and> f \<noteq> ''port.json.bak'' \<longrightarrow>
              map_of port_dir' f = map_of port_dir f)
     else port_dir' = port_dir"
  proof (cases "\<exists>field \<in> set id_fields. contains (get_attr port_data) field")
    case True
    then have eq: "port_dir' =
        AList.update ''port.json'' (json_dump (without_fields id_fields port_data))
          (AList.update ''port.json.bak'' content (AList.delete ''port.json'' port_dir))"
      unfolding port_dir'_def ppr by (rule if_P)
    have "map_of port_dir' ''port.json.bak'' = Some content"
      by (simp add: eq AList.update_conv')
    moreover have "map_of port_dir' ''port.json'' =
                     Some (json_dump (without_fields id_fields port_data))"
      by (simp add: eq AList.update_conv')
    moreover have "\<forall>f. f \<noteq> ''port.json'' \<and> f \<noteq> ''port.json.bak'' \<longrightarrow>
                     map_of port_dir' f = map_of port_dir f"
      by (simp add: eq AList.update_conv' AList.delete_conv')
    ultimately show ?thesis using True by (simp only: if_True simp_thms)
  next
    case False
    then have "port_dir' = port_dir"
      unfolding port_dir'_def ppr by (rule if_not_P)
    with False show ?thesis by (simp only: if_False simp_thms)
  qed
  from res files om at show ?thesis by blast
qed

theorem remove_ids_backs_up_witness:
  "\<exists>port_dir'.
     map_of (remove_ids_from_ports
               (\<lambda>c. case c of Inl text \<Rightarrow> None | Inr data \<Rightarrow> Some data) Inr
               [(''README.md'', File (Inl ''ports'')),
                (''doom'', Dir [(''port.json'',
                                  Inr \<lparr>attr_object = Some [(''title'', ''Doom''), (''igdb_id'', ''379'')],
                                       other_members = ''1.0''\<rparr>),
                                (''doom.sh'', Inl ''run'')])])
       ''doom'' = Some (Dir port_dir')
   \<and> map_of port_dir' ''port.json.bak'' =
       Some (Inr \<lparr>attr_object = Some [(''title'', ''Doom''), (''igdb_id'', ''379'')],
                  other_members = ''1.0''\<rparr>)
   \<and> map_of port_dir' ''port.json'' =
       Some (Inr \<lparr>attr_object = Some [(''title'', ''Doom'')], other_members = ''1.0''\<rparr>)
   \<and> map_of port_dir' ''doom.sh'' = Some (Inl ''run'')"
proof -
  let ?load = "\<lambda>c. case c of Inl (text :: string) \<Rightarrow> None
                       | Inr (data :: (string, string) port_data) \<Rightarrow> Some data"
  let ?data = "\<lparr>attr_object = Some [(''title'', ''Doom''), (''igdb_id'', ''379'')],
                other_members = ''1.0''\<rparr>"
  let ?dir = "[(''port.json'', Inr ?data), (''doom.sh'', Inl ''run'')]"
  let ?ports = "[(''README.md'', File (Inl ''ports'')), (''doom'', Dir ?dir)]"
  have a1: "distinct (keys ?ports)" by (simp add: keys_def)
  have a2: "map_of ?ports ''doom'' = Some (Dir ?dir)" by simp
  have a3: "map_of ?dir ''port.json'' = Some (Inr ?data)" by simp
  have a4: "?load (Inr ?data) = Some ?data" by simp
  have present: "\<exists>field \<in> set id_fields. contains (get_attr ?data) field"
    by (simp add: id_fields_def contains_def keys_def get_attr_def)
  have stripped: "without_fields id_fields ?data =
                    \<lparr>attr_object = Some [(''title'', ''Doom'')], other_members = ''1.0''\<rparr>"
    by (simp add: without_fields_def id_fields_def)
  note t = remove_ids_backs_up
    [where json_load = ?load and json_dump = Inr and ports = ?ports
       and port_name = "''doom''" and port_dir = ?dir and content = "Inr ?data"
       and port_data = ?data, OF a1 a2 a3 a4]
  then obtain port_dir' where
    r: "map_of (remove_ids_from_ports ?load Inr ?ports) ''doom'' = Some (Dir port_dir')" and
    i: "if \<exists>field \<in> set id_fields. contains (get_attr ?data) field
        then map_of port_dir' ''port.json.bak'' = Some (Inr ?data)
           \<and> map_of port_dir' ''port.json'' = Some (Inr (without_fields id_fields ?data))
           \<and> (\<forall>f. f \<noteq> ''port.json'' \<and> f \<noteq> ''port.json.bak'' \<longrightarrow>
                 map_of port_dir' f = map_of ?dir f)
        else port_dir' = ?dir"
    by blast
  from i have files:
    "map_of port_dir' ''port.json.bak'' = Some (Inr ?data)
       \<and> map_of port_dir' ''port.json'' = Some (Inr (without_fields id_fields ?data))
       \<and> (\<forall>f. f \<noteq> ''port.json'' \<and> f \<noteq> ''port.json.bak'' \<longrightarrow>
             map_of port_dir' f = map_of ?dir f)"
    unfolding if_P [OF present] .
  then have "map_of port_dir' ''doom.sh'' = map_of ?dir ''doom.sh''"
    by simp
  then have sh: "map_of port_dir' ''doom.sh'' = Some (Inl ''run'')"
    by simp
  from r files sh show ?thesis unfolding stripped by blast
qed

end
